theory Spec2Isabelle
  imports Main
begin

section \<open>The inference server of server.py\<close>

text \<open>
  server.py is a FastAPI application with two inference routes. Each route handler is a
  coroutine that hands a blocking function (\<open>run_chat\<close> or \<open>run_summarize\<close>) and the
  request's text to one module-level \<open>ThreadPoolExecutor(max_workers=4)\<close> and awaits the
  returned future. The two Hugging Face pipelines are external: they are parameters of
  the model, functions of their arguments that either return a list of dictionaries or
  raise.
\<close>

subsection \<open>JSON values and HTTP responses\<close>

text \<open>
  A JSON value is what \<open>json.loads\<close> returns. A string is text that can be encoded as
  UTF-8. A finite number is kept as its literal. The decoder also accepts \<open>Infinity\<close>,
  \<open>-Infinity\<close> and \<open>NaN\<close>, and reads a literal beyond the range of a double, such as
  \<open>1e400\<close>, as infinity.
\<close>

datatype number = Finite string | PosInf | NegInf | NaN

datatype json =
    JNull
  | JBool bool
  | JNum number
  | JStr string
  | JArr "json list"
  | JObj "(string \<times> json) list"

text \<open>
  The body of a request, sent with a JSON content type (as the page's script and the load
  test do):
  \<^item> \<open>Undecodable\<close>: reading it as JSON raises an exception other than
    \<open>JSONDecodeError\<close> (bytes that are not UTF-8, an integer literal beyond the
    interpreter's digit limit, nesting beyond the recursion limit);
  \<^item> \<open>NotJson\<close>: the decoder raises \<open>JSONDecodeError\<close>;
  \<^item> \<open>Json v\<close>: the decoder returns \<open>v\<close>.
\<close>

datatype body = Undecodable | NotJson | Json json

text \<open>The reasons for which request validation refuses a body.\<close>

datatype validation_error = JsonInvalid | ModelAttributesType | Missing | StringType

datatype http_body =
    JsonBody json
  | PlainText string
  | ValidationDetail validation_error

record http_response =
  status :: nat
  content :: http_body

subsection \<open>Request models: ChatRequest and SummaryRequest\<close>

text \<open>
  \<^verbatim>\<open>
  class ChatRequest(BaseModel):
      text: str

  class SummaryRequest(BaseModel):
      text: str
  \<close>
  Both models have the single required field \<open>text\<close> of type \<open>str\<close>. The body must be a
  JSON object whose member \<open>text\<close> is a JSON string; other members are ignored. A
  member \<open>text\<close> that is a number, a boolean, null, an array or an object is refused
  (pydantic 2 does not turn a number into a string). When a member name is repeated, the
  JSON decoder keeps the last one. A body \<open>null\<close> counts as a missing body. The models are
  not consulted for a body that could not be decoded; the equation for \<open>Undecodable\<close>
  only makes the function total.
\<close>

definition dict_get :: "(string \<times> 'v) list \<Rightarrow> string \<Rightarrow> 'v option" where
  "dict_get members k = map_of (rev members) k"

fun validate_text_model :: "body \<Rightarrow> validation_error + string" where
  "validate_text_model Undecodable = Inl JsonInvalid"
| "validate_text_model NotJson = Inl JsonInvalid"
| "validate_text_model (Json JNull) = Inl Missing"
| "validate_text_model (Json (JObj members)) =
     (case dict_get members ''text'' of
        None \<Rightarrow> Inl Missing
      | Some (JStr s) \<Rightarrow> Inr s
      | Some _ \<Rightarrow> Inl StringType)"
| "validate_text_model (Json _) = Inl ModelAttributesType"

definition ChatRequest :: "body \<Rightarrow> validation_error + string" where
  "ChatRequest b = validate_text_model b"

definition SummaryRequest :: "body \<Rightarrow> validation_error + string" where
  "SummaryRequest b = validate_text_model b"

subsection \<open>The pipelines and the two blocking functions\<close>

text \<open>
  What a call can raise: the two errors of \<open>out[0][key]\<close>, \<open>StopIteration\<close>, and any
  other exception of class \<open>Exception\<close> that the pipeline raises, with its message.
  Cancellation errors and exceptions outside \<open>Exception\<close> are not modelled.
\<close>

datatype exn = IndexError | KeyError | StopIteration | PipelineError string

type_synonym pydict = "(string \<times> string) list"

record generation_kwargs =
  max_new_tokens :: int
  return_full_text :: bool

record summarization_kwargs =
  max_length :: int
  min_length :: int
  do_sample :: bool

record backend =
  chat_pipe :: "string \<Rightarrow> generation_kwargs \<Rightarrow> exn + pydict list"
  summary_pipe :: "string \<Rightarrow> summarization_kwargs \<Rightarrow> exn + pydict list"

text \<open>\<open>out[0][key]\<close>: IndexError on an empty list, KeyError on a missing key.\<close>

definition first_item :: "pydict list \<Rightarrow> string \<Rightarrow> exn + string" where
  "first_item out key =
     (case out of
        [] \<Rightarrow> Inl IndexError
      | d # _ \<Rightarrow> (case map_of d key of None \<Rightarrow> Inl KeyError | Some v \<Rightarrow> Inr v))"

text \<open>
  \<^verbatim>\<open>
  def run_chat(text: str):
      out = chat_pipe(text, max_new_tokens=100, return_full_text=False)
      return out[0]["generated_text"]
  \<close>
\<close>

definition run_chat :: "backend \<Rightarrow> string \<Rightarrow> exn + string" where
  "run_chat B t =
     (case chat_pipe B t \<lparr>max_new_tokens = 100, return_full_text = False\<rparr> of
        Inl e \<Rightarrow> Inl e
      | Inr out \<Rightarrow> first_item out ''generated_text'')"

text \<open>
  \<^verbatim>\<open>
  def run_summarize(text: str):
      out = summary_pipe(text, max_length=130, min_length=30, do_sample=False)
      return out[0]["summary_text"]
  \<close>
\<close>

definition run_summarize :: "backend \<Rightarrow> string \<Rightarrow> exn + string" where
  "run_summarize B t =
     (case summary_pipe B t \<lparr>max_length = 130, min_length = 30, do_sample = False\<rparr> of
        Inl e \<Rightarrow> Inl e
      | Inr out \<Rightarrow> first_item out ''summary_text'')"

subsection \<open>Configuration\<close>

text \<open>\<open>executor = ThreadPoolExecutor(max_workers=4)\<close>\<close>

definition max_workers :: nat where
  "max_workers = 4"

text \<open>\<open>uvicorn.run(app, host="0.0.0.0", port=8000)\<close>\<close>

definition uvicorn_host :: string where
  "uvicorn_host = ''0.0.0.0''"

definition uvicorn_port :: nat where
  "uvicorn_port = 8000"

subsection \<open>Routes, work items and the server state\<close>

datatype route = Chat | Summarize

text \<open>
  A work item is what \<open>loop.run_in_executor(executor, fn, req.text)\<close> submits: the function
  (named by its route), its argument, and the future that will carry the outcome. Futures
  are numbered in the order the requests arrive.
\<close>

record work_item =
  future_id :: nat
  target :: route
  arg :: string

text \<open>
  The state of the process: the executor's FIFO work queue, the work items that worker
  threads are executing, the responses written so far, a log of the backend invocations
  that have been started, and the work items whose handler will never resume.
\<close>

record server =
  next_id :: nat
  work_queue :: "work_item list"
  running :: "work_item list"
  responses :: "nat \<Rightarrow> http_response option"
  calls :: "work_item list"
  stuck :: "work_item list"

definition init :: server where
  "init = \<lparr>next_id = 0, work_queue = [], running = [], responses = (\<lambda>_. None), calls = [],
            stuck = []\<rparr>"

text \<open>The function a worker thread calls for a work item.\<close>

definition run_task :: "backend \<Rightarrow> route \<Rightarrow> string \<Rightarrow> exn + string" where
  "run_task B r t = (case r of Chat \<Rightarrow> run_chat B t | Summarize \<Rightarrow> run_summarize B t)"

text \<open>The request model of a route.\<close>

definition request_model :: "route \<Rightarrow> body \<Rightarrow> validation_error + string" where
  "request_model r b = (case r of Chat \<Rightarrow> ChatRequest b | Summarize \<Rightarrow> SummaryRequest b)"

text \<open>
  \<open>return {"response": result}\<close> and \<open>return {"summary": result}\<close>: the handler's return
  value is sent with status 200.
\<close>

definition ok_response :: "route \<Rightarrow> string \<Rightarrow> http_response" where
  "ok_response r result =
     \<lparr>status = 200,
      content = JsonBody (JObj [(case r of Chat \<Rightarrow> ''response'' | Summarize \<Rightarrow> ''summary'', JStr result)])\<rparr>"

text \<open>
  An exception that reaches no handler of the application (\<open>FastAPI()\<close>, not in debug
  mode) is answered with the fixed plain text below.
\<close>

definition internal_server_error :: http_response where
  "internal_server_error = \<lparr>status = 500, content = PlainText ''Internal Server Error''\<rparr>"

text \<open>
  The handler after its \<open>await\<close>, given how the call ended. Neither handler catches
  anything, so an exception of the awaited future leaves the handler and is answered with
  status 500. \<open>StopIteration\<close> is different: the event loop's future refuses it
  (\<open>set_exception\<close> raises \<open>TypeError\<close> in CPython 3.11), the awaited future is never
  resolved, and the handler never resumes: there is no response.
\<close>

definition resume :: "route \<Rightarrow> exn + string \<Rightarrow> http_response option" where
  "resume r outcome =
     (case outcome of
        Inl StopIteration \<Rightarrow> None
      | Inl e \<Rightarrow> Some internal_server_error
      | Inr result \<Rightarrow> Some (ok_response r result))"

text \<open>
  A body that cannot be decoded is answered with status 400. A body the request model
  refuses is answered with status 422 and a detail that repeats the refused input: the
  member \<open>text\<close> when it is there, the body otherwise, an empty object when the body is
  not JSON. The detail is rendered as strict JSON, which has no non-finite number:
  rendering then raises \<open>ValueError\<close>, and the answer is status 500.
\<close>

definition non_finite_number :: "number \<Rightarrow> bool" where
  "non_finite_number n = (case n of Finite _ \<Rightarrow> False | _ \<Rightarrow> True)"

primrec non_finite :: "json \<Rightarrow> bool" where
  "non_finite JNull = False"
| "non_finite (JBool b) = False"
| "non_finite (JNum n) = non_finite_number n"
| "non_finite (JStr s) = False"
| "non_finite (JArr vs) = (True \<in> set (map non_finite vs))"
| "non_finite (JObj members) =
     (\<exists>k \<in> set (map fst members).
        dict_get (map (map_prod id non_finite) members) k = Some True)"

fun echoed_input :: "body \<Rightarrow> json" where
  "echoed_input Undecodable = JObj []"
| "echoed_input NotJson = JObj []"
| "echoed_input (Json (JObj members)) =
     (case dict_get members ''text'' of None \<Rightarrow> JObj members | Some v \<Rightarrow> v)"
| "echoed_input (Json v) = v"

definition bad_request :: http_response where
  "bad_request =
     \<lparr>status = 400,
      content = JsonBody (JObj [(''detail'', JStr ''There was an error parsing the body'')])\<rparr>"

definition unprocessable :: "validation_error \<Rightarrow> http_response" where
  "unprocessable e = \<lparr>status = 422, content = ValidationDetail e\<rparr>"

definition refuse :: "body \<Rightarrow> validation_error \<Rightarrow> http_response" where
  "refuse b e =
     (if b = Undecodable then bad_request
      else if non_finite (echoed_input b) then internal_server_error
      else unprocessable e)"

subsection \<open>Events of a schedule\<close>

text \<open>
  \<^verbatim>\<open>
  @app.post("/chat")
  async def chat(req: ChatRequest):
      loop = asyncio.get_event_loop()
      result = await loop.run_in_executor(executor, run_chat, req.text)
      return {"response": result}

  @app.post("/summarize")
  async def summarize(req: SummaryRequest):
      loop = asyncio.get_event_loop()
      result = await loop.run_in_executor(executor, run_summarize, req.text)
      return {"summary": result}
  \<close>
  The handlers run on the event loop; the functions they submit run on the executor's
  threads. Many requests are in flight at once, so the process is modelled by the
  interleavings of its atomic events. A schedule is a list of events:
  \<^item> \<open>Post r b\<close>: a POST request with body \<open>b\<close> arrives at route \<open>r\<close>. The parameter
    \<open>req\<close> is built from the body before the handler runs; a body that cannot be
    decoded or that the request model refuses is answered at once (\<open>refuse\<close>) and the
    handler is never entered. Otherwise the handler submits its work item to the executor
    and awaits the future.
  \<^item> \<open>Dequeue\<close>: a worker thread takes the oldest work item from the queue and calls
    its function. The executor has at most \<open>max_workers\<close> threads, each executing one
    work item at a time.
  \<^item> \<open>Return i\<close>: the call for future \<open>i\<close> returns or raises; the thread is free
    again, and the awaiting handler resumes and writes the response, or never resumes
    (\<open>resume\<close>). These are one event here: the model has no state between the end of a
    call and its response.
  An event that is not enabled has no successor state.
\<close>

datatype event = Post route body | Dequeue | Return nat

fun step :: "backend \<Rightarrow> event \<Rightarrow> server \<Rightarrow> server option" where
  "step B (Post r b) s =
     (case request_model r b of
        Inl e \<Rightarrow>
          Some (s\<lparr>next_id := Suc (next_id s),
                  responses := (responses s)(next_id s := Some (refuse b e))\<rparr>)
      | Inr t \<Rightarrow>
          Some (s\<lparr>next_id := Suc (next_id s),
                  work_queue := work_queue s @ [\<lparr>future_id = next_id s, target = r, arg = t\<rparr>]\<rparr>))"
| "step B Dequeue s =
     (case work_queue s of
        [] \<Rightarrow> None
      | w # q \<Rightarrow>
          if length (running s) < max_workers
          then Some (s\<lparr>work_queue := q, running := running s @ [w], calls := calls s @ [w]\<rparr>)
          else None)"
| "step B (Return i) s =
     (case find (\<lambda>w. future_id w = i) (running s) of
        None \<Rightarrow> None
      | Some w \<Rightarrow>
          (case resume (target w) (run_task B (target w) (arg w)) of
             None \<Rightarrow>
               Some (s\<lparr>running := filter (\<lambda>v. future_id v \<noteq> i) (running s),
                       stuck := stuck s @ [w]\<rparr>)
           | Some resp \<Rightarrow>
               Some (s\<lparr>running := filter (\<lambda>v. future_id v \<noteq> i) (running s),
                       responses := (responses s)(i := Some resp)\<rparr>)))"

fun run :: "backend \<Rightarrow> event list \<Rightarrow> server \<Rightarrow> server option" where
  "run B [] s = Some s"
| "run B (e # es) s = (case step B e s of None \<Rightarrow> None | Some s' \<Rightarrow> run B es s')"

text \<open>A backend stub for concrete runs: fixed outputs for every input.\<close>

definition stub_backend :: backend where
  "stub_backend =
     \<lparr>chat_pipe = (\<lambda>t kw. Inr [[(''generated_text'', ''fact'')]]),
      summary_pipe = (\<lambda>t kw. Inr [[(''summary_text'', ''short'')]])\<rparr>"



definition text_body :: "string \<Rightarrow> body" where
  "text_body s = Json (JObj [(''text'', JStr s)])"

subsection \<open>Predicates on states\<close>

text \<open>
  Well-formedness of a state: at most \<open>max_workers\<close> work items are being executed; no
  future is queued or invoked twice; a work item being executed, or whose handler never
  resumes, is in the invocation log; every future was numbered before \<open>next_id\<close>; the
  request of an invoked work item has no response exactly when the item is being
  executed or its handler never resumes; a queued request has no response.
\<close>

definition wf :: "server \<Rightarrow> bool" where
  "wf s \<longleftrightarrow>
     length (running s) \<le> max_workers \<and>
     distinct (map future_id (work_queue s @ calls s)) \<and>
     set (running s) \<subseteq> set (calls s) \<and>
     set (stuck s) \<subseteq> set (calls s) \<and>
     (\<forall>w \<in> set (work_queue s @ calls s). future_id w < next_id s) \<and>
     (\<forall>w \<in> set (calls s).
        (w \<in> set (running s) \<or> w \<in> set (stuck s)) = (responses s (future_id w) = None)) \<and>
     (\<forall>w \<in> set (work_queue s). responses s (future_id w) = None) \<and>
     (\<forall>i. responses s i \<noteq> None \<longrightarrow> i < next_id s) \<and>
     (\<forall>w \<in> set (stuck s). w \<notin> set (running s))"

text \<open>
  The request of work item \<open>w\<close> is either waiting (queued or being executed, no response
  yet), or its call has ended and its handler never resumes, or it was answered from the
  outcome of its own call.
\<close>

definition answered_by :: "backend \<Rightarrow> work_item \<Rightarrow> server \<Rightarrow> bool" where
  "answered_by B w s \<longleftrightarrow>
     (case responses s (future_id w) of
        None \<Rightarrow>
          w \<in> set (work_queue s) \<or> w \<in> set (running s) \<or>
          (w \<in> set (stuck s) \<and> resume (target w) (run_task B (target w) (arg w)) = None)
      | Some resp \<Rightarrow>
          resume (target w) (run_task B (target w) (arg w)) = Some resp \<and> w \<in> set (calls s))"

text \<open>
  The bound in the specification's words, for an admission gate of \<open>M\<close> permits beside
  the worker pool: at most \<open>min(N, M)\<close> requests are inside the backend.
\<close>

definition claimed_bound :: "nat \<Rightarrow> server \<Rightarrow> bool" where
  "claimed_bound M s \<longleftrightarrow> length (running s) \<le> min max_workers M"

subsection \<open>The load test's note on the server\<close>

text \<open>
  test_concurrent.py ends by printing three lines under the heading
  \<open>Server Configuration\<close>:
\<close>

definition printed_server_configuration :: "string list" where
  "printed_server_configuration =
     [''   - ThreadPoolExecutor: 20 workers'',
      ''   - Semaphore limit: 15 concurrent GPU requests'',
      ''   - GPU: MPS (Metal Performance Shaders) on M4 Mac'']"

section \<open>Invariants of every schedule\<close>

lemmas eval_defs = init_def request_model_def ChatRequest_def SummaryRequest_def text_body_def
  dict_get_def max_workers_def run_task_def run_chat_def run_summarize_def stub_backend_def
  first_item_def resume_def ok_response_def internal_server_error_def unprocessable_def
  refuse_def bad_request_def non_finite_number_def

lemma run_append:
  "run B (es @ fs) s = (case run B es s of None \<Rightarrow> None | Some s' \<Rightarrow> run B fs s')"
  by (induction es arbitrary: s) (auto split: option.splits)

lemma wf_init: "wf init"
  by (simp add: wf_def init_def)

lemma wfD:
  assumes "wf s"
  shows "length (running s) \<le> max_workers"
    and "distinct (map future_id (work_queue s @ calls s))"
    and "set (running s) \<subseteq> set (calls s)"
    and "\<And>w. w \<in> set (work_queue s) \<Longrightarrow> future_id w < next_id s"
    and "\<And>w. w \<in> set (calls s) \<Longrightarrow>
           (w \<in> set (running s) \<or> w \<in> set (stuck s)) = (responses s (future_id w) = None)"
    and "\<And>w. w \<in> set (work_queue s) \<Longrightarrow> responses s (future_id w) = None"
    and "\<And>i. responses s i \<noteq> None \<Longrightarrow> i < next_id s"
    and "\<And>w. w \<in> set (calls s) \<Longrightarrow> future_id w < next_id s"
    and "set (stuck s) \<subseteq> set (calls s)"
    and "\<And>w. w \<in> set (stuck s) \<Longrightarrow> w \<notin> set (running s)"
  using assms unfolding wf_def by simp_all

lemma find_future:
  "find (\<lambda>w. future_id w = i) xs = Some w \<Longrightarrow> w \<in> set xs \<and> future_id w = i"
  by (induction xs) (auto split: if_splits)

lemma same_future_same_item:
  assumes "distinct (map future_id xs)" and "v \<in> set xs" and "w \<in> set xs"
    and "future_id v = future_id w"
  shows "v = w"
  using assms by (meson distinct_map inj_on_def)

lemma wf_Post:
  assumes "wf s" and "step B (Post r b) s = Some s'"
  shows "wf s'"
proof (cases "request_model r b")
  case (Inl e)
  with assms(2) have s': "s' = s\<lparr>next_id := Suc (next_id s),
        responses := (responses s)(next_id s := Some (refuse b e))\<rparr>" by simp
  note D = wfD [OF assms(1)]
  have ids: "\<forall>w \<in> set (work_queue s). future_id w \<noteq> next_id s"
    "\<forall>w \<in> set (calls s). future_id w \<noteq> next_id s"
    using D(4) D(8) by fastforce+
  show ?thesis unfolding wf_def s'
  proof (intro conjI)
    show "\<forall>i. responses (s\<lparr>next_id := Suc (next_id s),
        responses := (responses s)(next_id s := Some (refuse b e))\<rparr>) i \<noteq> None \<longrightarrow>
        i < next_id (s\<lparr>next_id := Suc (next_id s),
        responses := (responses s)(next_id s := Some (refuse b e))\<rparr>)"
      using D(7) by (auto simp: less_Suc_eq)
  qed (use D ids in \<open>auto simp: less_Suc_eq\<close>)
next
  case (Inr t)
  with assms(2) have s': "s' = s\<lparr>next_id := Suc (next_id s),
        work_queue := work_queue s @ [\<lparr>future_id = next_id s, target = r, arg = t\<rparr>]\<rparr>" by simp
  note D = wfD [OF assms(1)]
  have ids: "\<forall>w \<in> set (work_queue s). future_id w \<noteq> next_id s"
    "\<forall>w \<in> set (calls s). future_id w \<noteq> next_id s"
    using D(4) D(8) by fastforce+
  have fresh: "responses s (next_id s) = None"
    using D(7) [of "next_id s"] by (cases "responses s (next_id s)") auto
  show ?thesis unfolding wf_def s'
    by (intro conjI) (use D ids fresh in \<open>auto simp: less_Suc_eq\<close>)
qed

lemma wf_Dequeue:
  assumes "wf s" and "step B Dequeue s = Some s'"
  shows "wf s'"
proof -
  from assms(2) obtain w q where q: "work_queue s = w # q" and lt: "length (running s) < max_workers"
    and s': "s' = s\<lparr>work_queue := q, running := running s @ [w], calls := calls s @ [w]\<rparr>"
    by (auto split: list.splits if_splits)
  note D = wfD [OF assms(1)]
  have w_new: "w \<notin> set (calls s)"
    using D(2) q by auto
  have w_none: "responses s (future_id w) = None"
    using D(6) [of w] q by simp
  have w_free: "w \<notin> set (stuck s)"
    using w_new D(9) by auto
  show ?thesis unfolding wf_def s'
    by (intro conjI) (use D q lt w_new w_none w_free in \<open>auto\<close>)
qed

lemma wf_Return:
  assumes "wf s" and "step B (Return i) s = Some s'"
  shows "wf s'"
proof -
  from assms(2) obtain w where f: "find (\<lambda>w. future_id w = i) (running s) = Some w"
    by (auto split: option.splits)
  from find_future [OF f] have w: "w \<in> set (running s)" "future_id w = i" by simp_all
  note D = wfD [OF assms(1)]
  have le: "length (filter (\<lambda>v. future_id v \<noteq> i) (running s)) \<le> max_workers"
    using D(1) length_filter_le [of "\<lambda>v. future_id v \<noteq> i" "running s"] by linarith
  from w D(3) have wc: "w \<in> set (calls s)" by auto
  have i_lt: "i < next_id s"
    using D(8) [of w] wc w(2) by simp
  have q_ne: "future_id v \<noteq> i" if "v \<in> set (work_queue s)" for v
    using D(2) wc w(2) that by auto
  from D(2) have dc: "distinct (map future_id (calls s))" by simp
  have uniq: "v = w" if "v \<in> set (calls s)" "future_id v = i" for v
    using same_future_same_item [OF dc that(1) wc] that(2) w(2) by simp
  have w_none: "responses s i = None"
    using D(5) [OF wc] w by simp
  have w_free: "w \<notin> set (stuck s)"
    using D(10) w(1) by auto
  show ?thesis
  proof (cases "resume (target w) (run_task B (target w) (arg w))")
    case None
    with f assms(2) have s': "s' = s\<lparr>running := filter (\<lambda>v. future_id v \<noteq> i) (running s),
        stuck := stuck s @ [w]\<rparr>" by simp
    have five: "(v \<in> set (filter (\<lambda>v. future_id v \<noteq> i) (running s)) \<or> v \<in> set (stuck s @ [w]))
        = (responses s (future_id v) = None)" if v: "v \<in> set (calls s)" for v
    proof (cases "future_id v = i")
      case True
      with uniq [OF v] w_none show ?thesis by simp
    next
      case False
      with D(5) [OF v] w(2) show ?thesis by auto
    qed
    show ?thesis unfolding wf_def s'
    proof (intro conjI)
      show "\<forall>v \<in> set (calls (s\<lparr>running := filter (\<lambda>v. future_id v \<noteq> i) (running s),
            stuck := stuck s @ [w]\<rparr>)).
          (v \<in> set (running (s\<lparr>running := filter (\<lambda>v. future_id v \<noteq> i) (running s),
            stuck := stuck s @ [w]\<rparr>)) \<or>
           v \<in> set (stuck (s\<lparr>running := filter (\<lambda>v. future_id v \<noteq> i) (running s),
            stuck := stuck s @ [w]\<rparr>))) =
          (responses (s\<lparr>running := filter (\<lambda>v. future_id v \<noteq> i) (running s),
            stuck := stuck s @ [w]\<rparr>) (future_id v) = None)"
        using five by simp
    qed (use D le wc w in \<open>auto\<close>)
  next
    case (Some resp)
    with f assms(2) have s': "s' = s\<lparr>running := filter (\<lambda>v. future_id v \<noteq> i) (running s),
        responses := (responses s)(i := Some resp)\<rparr>" by simp
    have five: "(v \<in> set (filter (\<lambda>v. future_id v \<noteq> i) (running s)) \<or> v \<in> set (stuck s))
        = (((responses s)(i := Some resp)) (future_id v) = None)" if v: "v \<in> set (calls s)" for v
    proof (cases "future_id v = i")
      case True
      with uniq [OF v] w_free show ?thesis by simp
    next
      case False
      with D(5) [OF v] show ?thesis by auto
    qed
    show ?thesis unfolding wf_def s'
    proof (intro conjI)
      show "\<forall>v \<in> set (calls (s\<lparr>running := filter (\<lambda>v. future_id v \<noteq> i) (running s),
            responses := (responses s)(i := Some resp)\<rparr>)).
          (v \<in> set (running (s\<lparr>running := filter (\<lambda>v. future_id v \<noteq> i) (running s),
            responses := (responses s)(i := Some resp)\<rparr>)) \<or>
           v \<in> set (stuck (s\<lparr>running := filter (\<lambda>v. future_id v \<noteq> i) (running s),
            responses := (responses s)(i := Some resp)\<rparr>))) =
          (responses (s\<lparr>running := filter (\<lambda>v. future_id v \<noteq> i) (running s),
            responses := (responses s)(i := Some resp)\<rparr>) (future_id v) = None)"
        using five by simp
    qed (use D le i_lt q_ne in \<open>auto\<close>)
  qed
qed

lemma wf_step: "wf s \<Longrightarrow> step B e s = Some s' \<Longrightarrow> wf s'"
  by (cases e) (auto intro: wf_Post wf_Dequeue wf_Return simp del: step.simps)

lemma wf_run: "run B es s = Some s' \<Longrightarrow> wf s \<Longrightarrow> wf s'"
proof (induction es arbitrary: s)
  case Nil
  then show ?case by simp
next
  case (Cons e es)
  from Cons.prems(1) obtain s1 where s1: "step B e s = Some s1" and rest: "run B es s1 = Some s'"
    by (auto split: option.splits)
  from wf_step [OF Cons.prems(2) s1] show ?case by (rule Cons.IH [OF rest])
qed

lemma answered_by_step:
  assumes wf: "wf s" and tr: "answered_by B w s" and st: "step B e s = Some s'"
  shows "answered_by B w s'"
proof -
  note D = wfD [OF wf]
  have w_in: "w \<in> set (work_queue s) \<or> w \<in> set (calls s)"
    using tr D(3) D(9) unfolding answered_by_def by (auto split: option.splits)
  then have w_lt: "future_id w < next_id s"
    using D(4) D(8) by blast
  show ?thesis
  proof (cases e)
    case (Post r b)
    show ?thesis
    proof (cases "request_model r b")
      case (Inl err)
      with Post st have s': "s' = s\<lparr>next_id := Suc (next_id s),
          responses := (responses s)(next_id s := Some (refuse b err))\<rparr>" by simp
      from tr w_lt show ?thesis unfolding answered_by_def s' by (auto split: option.splits)
    next
      case (Inr t)
      with Post st have s': "s' = s\<lparr>next_id := Suc (next_id s),
          work_queue := work_queue s @ [\<lparr>future_id = next_id s, target = r, arg = t\<rparr>]\<rparr>" by simp
      from tr show ?thesis unfolding answered_by_def s' by (auto split: option.splits)
    qed
  next
    case Dequeue
    with st obtain v q where q: "work_queue s = v # q"
      and s': "s' = s\<lparr>work_queue := q, running := running s @ [v], calls := calls s @ [v]\<rparr>"
      by (auto split: list.splits if_splits)
    from tr q show ?thesis unfolding answered_by_def s' by (auto split: option.splits)
  next
    case (Return i)
    with st obtain v where f: "find (\<lambda>w. future_id w = i) (running s) = Some v"
      by (auto split: option.splits)
    from find_future [OF f] have v: "v \<in> set (running s)" "future_id v = i" by simp_all
    from v D(3) have vc: "v \<in> set (calls s)" by auto
    from D(5) [OF vc] v have v_none: "responses s i = None" by simp
    have same: "v = w" if "future_id w = i"
    proof -
      from tr v_none that
      have "w \<in> set (work_queue s) \<or> w \<in> set (running s) \<or> w \<in> set (stuck s)"
        unfolding answered_by_def by auto
      with D(3) D(9) have "w \<in> set (work_queue s @ calls s)" by auto
      moreover from vc have "v \<in> set (work_queue s @ calls s)" by simp
      ultimately show ?thesis
        using same_future_same_item [OF D(2)] that v(2) by blast
    qed
    show ?thesis
    proof (cases "resume (target v) (run_task B (target v) (arg v))")
      case None
      with Return f st have s': "s' = s\<lparr>running := filter (\<lambda>v. future_id v \<noteq> i) (running s),
          stuck := stuck s @ [v]\<rparr>" by simp
      show ?thesis
      proof (cases "future_id w = i")
        case True
        with same None v_none show ?thesis unfolding answered_by_def s' by simp
      next
        case False
        with tr show ?thesis unfolding answered_by_def s' by (auto split: option.splits)
      qed
    next
      case (Some resp)
      with Return f st have s': "s' = s\<lparr>running := filter (\<lambda>v. future_id v \<noteq> i) (running s),
          responses := (responses s)(i := Some resp)\<rparr>" by simp
      show ?thesis
      proof (cases "future_id w = i")
        case True
        with same Some vc show ?thesis unfolding answered_by_def s' by simp
      next
        case False
        with tr show ?thesis unfolding answered_by_def s' by (auto split: option.splits)
      qed
    qed
  qed
qed

lemma answered_by_run:
  "run B es s = Some s' \<Longrightarrow> wf s \<Longrightarrow> answered_by B w s \<Longrightarrow> answered_by B w s'"
proof (induction es arbitrary: s)
  case Nil
  then show ?case by simp
next
  case (Cons e es)
  from Cons.prems(1) obtain s1 where s1: "step B e s = Some s1" and rest: "run B es s1 = Some s'"
    by (auto split: option.splits)
  from Cons.IH [OF rest wf_step [OF Cons.prems(2) s1] answered_by_step [OF Cons.prems(2,3) s1]]
  show ?case .
qed

text \<open>The work item of an accepted request, and the state right after its submission.\<close>

lemma Post_accepted:
  assumes "wf s" and "request_model r b = Inr t" and "step B (Post r b) s = Some s'"
  shows "answered_by B \<lparr>future_id = next_id s, target = r, arg = t\<rparr> s'"
proof -
  from assms(2,3) have s': "s' = s\<lparr>next_id := Suc (next_id s),
      work_queue := work_queue s @ [\<lparr>future_id = next_id s, target = r, arg = t\<rparr>]\<rparr>" by simp
  have "responses s (next_id s) = None"
    using wfD(7) [OF assms(1), of "next_id s"] by (cases "responses s (next_id s)") auto
  then show ?thesis unfolding answered_by_def s' by simp
qed

lemma accepted_tracked:
  assumes reach: "run B evs0 init = Some s0"
    and valid: "request_model r b = Inr t"
    and later: "run B (Post r b # evs) s0 = Some s"
  shows "wf s" and "answered_by B \<lparr>future_id = next_id s0, target = r, arg = t\<rparr> s"
proof -
  have wf0: "wf s0" using wf_run [OF reach wf_init] .
  from later obtain s1 where s1: "step B (Post r b) s0 = Some s1" and rest: "run B evs s1 = Some s"
    by (auto split: option.splits)
  have wf1: "wf s1" using wf_step [OF wf0 s1] .
  show "wf s" using wf_run [OF rest wf1] .
  show "answered_by B \<lparr>future_id = next_id s0, target = r, arg = t\<rparr> s"
    using answered_by_run [OF rest wf1 Post_accepted [OF wf0 valid s1]] .
qed

lemma response_of_accepted:
  assumes reach: "run B evs0 init = Some s0"
    and valid: "request_model r b = Inr t"
    and later: "run B (Post r b # evs) s0 = Some s"
    and resp: "responses s (next_id s0) = Some resp"
  shows "resume r (run_task B r t) = Some resp"
  using accepted_tracked(2) [OF reach valid later] resp
  unfolding answered_by_def by simp


lemma route_count:
  fixes xs :: "work_item list"
  shows "length (filter (\<lambda>w. target w = Chat) xs) + length (filter (\<lambda>w. target w = Summarize) xs)
     = length xs"
proof -
  have eq: "(target w = Summarize) = (target w \<noteq> Chat)" for w :: work_item
    by (cases "target w") auto
  show ?thesis
    using sum_length_filter_compl [of "\<lambda>w. target w = Chat" xs] by (simp add: eq)
qed





lemma Dequeue_blocked:
  "(step B Dequeue s = None) = (work_queue s = [] \<or> max_workers \<le> length (running s))"
  by (cases "work_queue s") auto

lemma fifo_step:
  assumes wf: "wf s" and st: "step B e s = Some s'"
    and srt: "sorted_wrt (<) (map future_id (calls s @ work_queue s))"
  shows "sorted_wrt (<) (map future_id (calls s' @ work_queue s'))"
proof (cases e)
  case (Post r b)
  show ?thesis
  proof (cases "request_model r b")
    case (Inl err)
    with Post st srt show ?thesis by auto
  next
    case (Inr t)
    with Post st have s': "s' = s\<lparr>next_id := Suc (next_id s),
        work_queue := work_queue s @ [\<lparr>future_id = next_id s, target = r, arg = t\<rparr>]\<rparr>" by simp
    have "map future_id (calls s' @ work_queue s') = map future_id (calls s @ work_queue s) @ [next_id s]"
      unfolding s' by simp
    moreover have "\<forall>i \<in> set (map future_id (calls s @ work_queue s)). i < next_id s"
      using wfD(4) [OF wf] wfD(8) [OF wf] by auto
    ultimately show ?thesis using srt by (simp only: sorted_wrt_append) simp
  qed
next
  case Dequeue
  with st obtain v q where q: "work_queue s = v # q"
    and s': "s' = s\<lparr>work_queue := q, running := running s @ [v], calls := calls s @ [v]\<rparr>"
    by (auto split: list.splits if_splits)
  from srt q show ?thesis unfolding s' by simp
next
  case (Return i)
  with st srt show ?thesis by (auto split: option.splits)
qed

lemma fifo_run:
  "run B es s = Some s' \<Longrightarrow> wf s \<Longrightarrow> sorted_wrt (<) (map future_id (calls s @ work_queue s)) \<Longrightarrow>
   sorted_wrt (<) (map future_id (calls s' @ work_queue s'))"
proof (induction es arbitrary: s)
  case Nil
  then show ?case by simp
next
  case (Cons e es)
  from Cons.prems(1) obtain s1 where s1: "step B e s = Some s1" and rest: "run B es s1 = Some s'"
    by (auto split: option.splits)
  from Cons.IH [OF rest wf_step [OF Cons.prems(2) s1] fifo_step [OF Cons.prems(2) s1 Cons.prems(3)]]
  show ?case .
qed




lemma resume_None: "resume r outcome = None \<longleftrightarrow> outcome = Inl StopIteration"
  by (auto simp: resume_def split: sum.splits exn.splits)

lemma stuck_outcome_step:
  assumes st: "step B e s = Some s'"
    and inv: "\<forall>w \<in> set (stuck s). run_task B (target w) (arg w) = Inl StopIteration"
  shows "\<forall>w \<in> set (stuck s'). run_task B (target w) (arg w) = Inl StopIteration"
proof (cases e)
  case (Post r b)
  with st inv show ?thesis by (cases "request_model r b") auto
next
  case Dequeue
  with st inv show ?thesis by (auto split: list.splits if_splits)
next
  case (Return i)
  with st obtain v where f: "find (\<lambda>w. future_id w = i) (running s) = Some v"
    by (auto split: option.splits)
  show ?thesis
  proof (cases "resume (target v) (run_task B (target v) (arg v))")
    case None
    then have "run_task B (target v) (arg v) = Inl StopIteration" by (simp add: resume_None)
    with Return f st inv None show ?thesis by auto
  next
    case (Some resp)
    with Return f st inv show ?thesis by auto
  qed
qed

lemma stuck_outcome_run:
  "run B es s = Some s' \<Longrightarrow>
   \<forall>w \<in> set (stuck s). run_task B (target w) (arg w) = Inl StopIteration \<Longrightarrow>
   \<forall>w \<in> set (stuck s'). run_task B (target w) (arg w) = Inl StopIteration"
proof (induction es arbitrary: s)
  case Nil
  then show ?case by simp
next
  case (Cons e es)
  from Cons.prems(1) obtain s1 where s1: "step B e s = Some s1" and rest: "run B es s1 = Some s'"
    by (auto split: option.splits)
  from Cons.IH [OF rest stuck_outcome_step [OF s1 Cons.prems(2)]] show ?case .
qed


section \<open>The claims\<close>

subsection \<open>Concurrency bound\<close>

text \<open>
  Claim C1, as the code has it. For every schedule, the number of requests inside the
  backend is at most the \<open>max_workers = 4\<close> threads of the executor. A work item being
  executed is in the log of started invocations, and a started invocation is being
  executed by a worker thread unless its call has ended: its request has a response, or
  the call raised \<open>StopIteration\<close> and its handler never resumes. So a backend call
  runs only while its request occupies a worker thread.
\<close>

theorem in_backend_at_most_max_workers:
  assumes "run B evs init = Some s"
  shows "length (running s) \<le> max_workers \<and> max_workers = 4 \<and>
         set (running s) \<subseteq> set (calls s) \<and>
         (\<forall>w \<in> set (calls s).
            w \<in> set (running s) \<or> responses s (future_id w) \<noteq> None \<or>
            (w \<in> set (stuck s) \<and> run_task B (target w) (arg w) = Inl StopIteration))"
proof -
  have wf: "wf s" using wf_run [OF assms wf_init] .
  note D = wfD [OF wf]
  have "\<forall>w \<in> set (stuck init). run_task B (target w) (arg w) = Inl StopIteration"
    by (simp add: init_def)
  from stuck_outcome_run [OF assms this]
  have S: "\<forall>w \<in> set (stuck s). run_task B (target w) (arg w) = Inl StopIteration" .
  from D(1) D(3) D(5) S show ?thesis by (auto simp: max_workers_def)
qed

theorem in_backend_at_most_max_workers_witness:
  "\<exists>s. run stub_backend
          [Post Chat (text_body ''a''), Post Summarize (text_body ''b''),
           Post Chat (text_body ''c''), Post Chat (text_body ''d''),
           Post Summarize (text_body ''e''),
           Dequeue, Dequeue, Dequeue, Dequeue] init = Some s
      \<and> length (running s) = 4 \<and> length (running s) \<le> max_workers
      \<and> length (work_queue s) = 1"
proof -
  let ?evs = "[Post Chat (text_body ''a''), Post Summarize (text_body ''b''),
           Post Chat (text_body ''c''), Post Chat (text_body ''d''),
           Post Summarize (text_body ''e''),
           Dequeue, Dequeue, Dequeue, Dequeue]"
  obtain s where s: "run stub_backend ?evs init = Some s"
    and n: "length (running s) = 4" "length (work_queue s) = 1"
    by (simp add: eval_defs)
  from in_backend_at_most_max_workers [OF s] n s show ?thesis by simp
qed

text \<open>
  Claim C1 as stated fails. The specification's own scenario has \<open>N = 4\<close> worker slots and
  \<open>M = 2\<close> admission permits and expects two requests in flight. The request path has no
  admission gate: after five chat requests and three dequeues, three requests are inside
  the backend.
\<close>

theorem min_bound_counterexample:
  "(case run stub_backend
          [Post Chat (text_body ''a''), Post Chat (text_body ''b''),
           Post Chat (text_body ''c''), Post Chat (text_body ''d''),
           Post Chat (text_body ''e''),
           Dequeue, Dequeue, Dequeue] init of
      None \<Rightarrow> False
    | Some s \<Rightarrow> length (running s) = 3 \<and> \<not> claimed_bound 2 s)"
  by (simp add: eval_defs claimed_bound_def)

subsection \<open>Responses of the two routes\<close>





subsection \<open>Failures\<close>







subsection \<open>What the source configures\<close>

text \<open>
  Claim C6. The executor has 4 workers; the server binds to \<open>0.0.0.0:8000\<close>; a queued
  work item is kept waiting only by an empty queue or by 4 work items being executed,
  so no admission count takes part in the request path. The number 15 is in the text
  the load test prints about the server.
\<close>

theorem source_configuration:
  "max_workers = 4 \<and> uvicorn_host = ''0.0.0.0'' \<and> uvicorn_port = 8000 \<and>
   (step B Dequeue s = None) = (work_queue s = [] \<or> 4 \<le> length (running s)) \<and>
   printed_server_configuration ! 1 = ''   - Semaphore limit: 15 concurrent GPU requests''"
  using Dequeue_blocked [of B s]
  by (simp add: max_workers_def uvicorn_host_def uvicorn_port_def printed_server_configuration_def)

theorem source_configuration_witness:
  "\<exists>s. run stub_backend
          [Post Chat (text_body ''a''), Post Chat (text_body ''b''), Post Chat (text_body ''c''),
           Post Chat (text_body ''d''), Post Chat (text_body ''e''),
           Dequeue, Dequeue, Dequeue] init = Some s
     \<and> length (running s) = 3 \<and> step stub_backend Dequeue s \<noteq> None
     \<and> step stub_backend Dequeue init = None \<and> max_workers = 4"
proof -
  obtain s where s: "run stub_backend
          [Post Chat (text_body ''a''), Post Chat (text_body ''b''), Post Chat (text_body ''c''),
           Post Chat (text_body ''d''), Post Chat (text_body ''e''),
           Dequeue, Dequeue, Dequeue] init = Some s"
    and n: "length (running s) = 3" "work_queue s \<noteq> []"
    by (simp add: eval_defs)
  have i: "work_queue init = []" by (simp add: init_def)
  from source_configuration [of stub_backend s] source_configuration [of stub_backend init] s n i
  show ?thesis by simp
qed

subsection \<open>Order of service\<close>

text \<open>
  Claim C8. Futures are numbered in the order of submission, and the log of started
  invocations is in the order in which work items were given a worker thread. For every
  schedule, the log followed by the queue is strictly increasing in the future number.
  Hence, of two submitted requests, when the later one has been given a worker thread the
  earlier one was given one before it; and every invocation started while a request is
  still queued belongs to a request submitted earlier, so no later request overtakes a
  waiting one.
\<close>

theorem first_queued_first_served:
  assumes "run B evs init = Some s"
  shows "sorted_wrt (<) (map future_id (calls s @ work_queue s)) \<and>
         (\<forall>w1 w2. w2 \<in> set (calls s) \<and> (w1 \<in> set (work_queue s) \<or> w1 \<in> set (calls s)) \<and>
              future_id w1 < future_id w2 \<longrightarrow>
              (\<exists>xs ys zs. calls s = xs @ w1 # ys @ w2 # zs)) \<and>
         (\<forall>w \<in> set (work_queue s). \<forall>v \<in> set (calls s). future_id v < future_id w)"
proof (intro conjI allI impI ballI)
  have srt0: "sorted_wrt (<) (map future_id (calls init @ work_queue init))"
    by (simp add: init_def)
  show srt: "sorted_wrt (<) (map future_id (calls s @ work_queue s))"
    using fifo_run [OF assms wf_init srt0] .
  show "future_id v < future_id w" if "w \<in> set (work_queue s)" "v \<in> set (calls s)" for w v
    using srt that by (auto simp: sorted_wrt_append)
  show "\<exists>xs ys zs. calls s = xs @ w1 # ys @ w2 # zs"
    if h: "w2 \<in> set (calls s) \<and> (w1 \<in> set (work_queue s) \<or> w1 \<in> set (calls s)) \<and>
       future_id w1 < future_id w2" for w1 w2
  proof -
    from h obtain us zs where c: "calls s = us @ w2 # zs"
      by (auto dest: split_list)
    from srt have a: "\<forall>x \<in> set us. future_id x < future_id w2"
      and b: "\<forall>y \<in> set (zs @ work_queue s). future_id w2 < future_id y"
      unfolding c by (auto simp: sorted_wrt_append)
    from h c have "w1 \<in> set us \<or> w1 = w2 \<or> w1 \<in> set (zs @ work_queue s)" by auto
    with b h have "w1 \<in> set us" by (auto dest: bspec)
    then obtain xs ys where "us = xs @ w1 # ys" by (auto dest: split_list)
    with c show ?thesis by auto
  qed
qed

theorem first_queued_first_served_witness:
  "\<exists>s. run stub_backend
          [Post Chat (text_body ''a''), Post Summarize (text_body ''b''),
           Post Chat (text_body ''c''), Post Chat (text_body ''d''),
           Post Summarize (text_body ''R1''), Post Chat (text_body ''R2''),
           Dequeue, Dequeue, Dequeue, Dequeue, Return 2, Dequeue] init = Some s
     \<and> map future_id (calls s) = [0, 1, 2, 3, 4]
     \<and> map future_id (work_queue s) = [5]
     \<and> sorted_wrt (<) (map future_id (calls s @ work_queue s))"
proof -
  obtain s where s: "run stub_backend
          [Post Chat (text_body ''a''), Post Summarize (text_body ''b''),
           Post Chat (text_body ''c''), Post Chat (text_body ''d''),
           Post Summarize (text_body ''R1''), Post Chat (text_body ''R2''),
           Dequeue, Dequeue, Dequeue, Dequeue, Return 2, Dequeue] init = Some s"
    and c: "map future_id (calls s) = [0, 1, 2, 3, 4]" "map future_id (work_queue s) = [5]"
    by (simp add: eval_defs)
  from first_queued_first_served [OF s]
  have srt: "sorted_wrt (<) (map future_id (calls s @ work_queue s))" by (rule conjunct1)
  show ?thesis by (rule exI [of _ s]) (intro conjI s c srt)
qed

subsection \<open>One executor for both routes\<close>

text \<open>
  Claim C9. Both routes submit to the same executor. For every schedule, the chat calls
  and the summarize calls being executed are together at most 4, and a queued work item
  of either route is kept waiting exactly when the queue is empty or the two counts
  together are 4.
\<close>

theorem routes_share_one_executor:
  assumes "run B evs init = Some s"
  shows "length (filter (\<lambda>w. target w = Chat) (running s)) +
         length (filter (\<lambda>w. target w = Summarize) (running s)) \<le> 4 \<and>
         (step B Dequeue s = None) =
           (work_queue s = [] \<or>
            length (filter (\<lambda>w. target w = Chat) (running s)) +
            length (filter (\<lambda>w. target w = Summarize) (running s)) = 4)"
proof -
  have wf: "wf s" using wf_run [OF assms wf_init] .
  from wfD(1) [OF wf] have le: "length (running s) \<le> 4" by (simp add: max_workers_def)
  from le Dequeue_blocked [of B s] show ?thesis
    by (auto simp: route_count max_workers_def)
qed

theorem routes_share_one_executor_witness:
  "\<exists>s. run stub_backend
          [Post Chat (text_body ''a''), Post Summarize (text_body ''b''),
           Post Summarize (text_body ''c''), Post Chat (text_body ''d''),
           Post Chat (text_body ''e''), Post Summarize (text_body ''f''),
           Dequeue, Dequeue, Dequeue, Dequeue] init = Some s
     \<and> length (filter (\<lambda>w. target w = Chat) (running s)) = 2
     \<and> length (filter (\<lambda>w. target w = Summarize) (running s)) = 2
     \<and> map target (work_queue s) = [Chat, Summarize]
     \<and> step stub_backend Dequeue s = None"
proof -
  obtain s where s: "run stub_backend
          [Post Chat (text_body ''a''), Post Summarize (text_body ''b''),
           Post Summarize (text_body ''c''), Post Chat (text_body ''d''),
           Post Chat (text_body ''e''), Post Summarize (text_body ''f''),
           Dequeue, Dequeue, Dequeue, Dequeue] init = Some s"
    and n: "length (filter (\<lambda>w. target w = Chat) (running s)) = 2"
      "length (filter (\<lambda>w. target w = Summarize) (running s)) = 2"
      "map target (work_queue s) = [Chat, Summarize]"
    by (simp add: eval_defs)
  from routes_share_one_executor [OF s] n have d: "step stub_backend Dequeue s = None" by simp
  show ?thesis by (rule exI [of _ s]) (intro conjI s n d)
qed

subsection \<open>Determinism of summarization\<close>

text \<open>
  Claim C10. \<open>run_summarize\<close> calls the summarization pipeline with the fixed arguments
  \<open>max_length=130\<close>, \<open>min_length=30\<close>, \<open>do_sample=False\<close>. Two \<open>/summarize\<close> requests
  with the same text, in the same run or in two runs, served by pipelines that return
  the same for that text and those arguments, get the same response. With one pipeline,
  a function of its arguments, the last hypothesis holds by reflexivity.
\<close>

theorem summarize_is_deterministic:
  assumes reach1: "run B1 evs1 init = Some s1"
    and valid1: "SummaryRequest b1 = Inr t"
    and later1: "run B1 (Post Summarize b1 # evs1') s1 = Some s1'"
    and resp1: "responses s1' (next_id s1) = Some resp1"
    and reach2: "run B2 evs2 init = Some s2"
    and valid2: "SummaryRequest b2 = Inr t"
    and later2: "run B2 (Post Summarize b2 # evs2') s2 = Some s2'"
    and resp2: "responses s2' (next_id s2) = Some resp2"
    and same: "summary_pipe B1 t \<lparr>max_length = 130, min_length = 30, do_sample = False\<rparr> =
               summary_pipe B2 t \<lparr>max_length = 130, min_length = 30, do_sample = False\<rparr>"
  shows "resp1 = resp2"
proof -
  from valid1 have v1: "request_model Summarize b1 = Inr t" by (simp add: request_model_def)
  from valid2 have v2: "request_model Summarize b2 = Inr t" by (simp add: request_model_def)
  from response_of_accepted [OF reach1 v1 later1 resp1]
  have "resume Summarize (run_summarize B1 t) = Some resp1" by (simp add: run_task_def)
  moreover from response_of_accepted [OF reach2 v2 later2 resp2]
  have "resume Summarize (run_summarize B2 t) = Some resp2" by (simp add: run_task_def)
  moreover from same have "run_summarize B1 t = run_summarize B2 t"
    by (simp add: run_summarize_def)
  ultimately show ?thesis by simp
qed

theorem summarize_is_deterministic_witness:
  "\<exists>s. run stub_backend
          [Post Summarize (text_body ''same text''), Post Chat (text_body ''hi''),
           Post Summarize (Json (JObj [(''text'', JStr ''same text''), (''lang'', JStr ''en'')])),
           Dequeue, Dequeue, Dequeue, Return 2, Return 0] init = Some s
     \<and> responses s 0 = responses s 2
     \<and> responses s 0 = Some \<lparr>status = 200, content = JsonBody (JObj [(''summary'', JStr ''short'')])\<rparr>"
proof -
  let ?b1 = "text_body ''same text''"
  let ?b2 = "Json (JObj [(''text'', JStr ''same text''), (''lang'', JStr ''en'')])"
  let ?tl = "[Dequeue, Dequeue, Dequeue, Return 2, Return 0]"
  obtain s resp1 resp2 where
    s: "run stub_backend (Post Summarize ?b1 # Post Chat (text_body ''hi'') # Post Summarize ?b2 # ?tl) init = Some s"
    and r1: "responses s 0 = Some resp1" and r2: "responses s 2 = Some resp2"
    and v: "responses s 0 = Some \<lparr>status = 200, content = JsonBody (JObj [(''summary'', JStr ''short'')])\<rparr>"
    by (simp add: eval_defs)
  obtain s2 where s2: "run stub_backend [Post Summarize ?b1, Post Chat (text_body ''hi'')] init = Some s2"
    and n2: "next_id s2 = 2"
    by (simp add: eval_defs)
  have later2: "run stub_backend (Post Summarize ?b2 # ?tl) s2 = Some s"
  proof -
    have "run stub_backend ([Post Summarize ?b1, Post Chat (text_body ''hi'')] @ (Post Summarize ?b2 # ?tl)) init = Some s"
      using s by (simp only: append.simps)
    then show ?thesis by (simp only: run_append s2 option.case)
  qed
  have reach: "run stub_backend [] init = Some init" by simp
  have v1: "SummaryRequest ?b1 = Inr ''same text''" by (simp add: eval_defs)
  have v2: "SummaryRequest ?b2 = Inr ''same text''" by (simp add: eval_defs)
  have n: "next_id init = 0" by (simp add: init_def)
  from r1 n have r1': "responses s (next_id init) = Some resp1" by simp
  from r2 n2 have r2': "responses s (next_id s2) = Some resp2" by simp
  from summarize_is_deterministic [OF reach v1 s r1' s2 v2 later2 r2' refl]
  have "resp1 = resp2" .
  with s r1 r2 v show ?thesis by simp
qed

end
